theory Spec2Isabelle
  imports Main
begin

section \<open>The Minesweeper board engine (components.py)\<close>

text \<open>
  A shallow embedding of the classes \<^verbatim>\<open>CellState\<close>, \<^verbatim>\<open>Cell\<close> and \<^verbatim>\<open>Board\<close>.
  Python integers are unbounded, so coordinates and counters are \<open>int\<close>. Methods that
  mutate the board take the board and return the new one; a raised exception is the
  value \<open>Inl e\<close>.
\<close>

subsection \<open>Data model\<close>

datatype error = AttributeError | IndexError | ValueError

record CellState =
  is_mine :: bool
  is_revealed :: bool
  is_flagged :: bool
  adjacent :: int

record Cell =
  col :: int
  row :: int
  state :: CellState

text \<open>
  \<^verbatim>\<open>Board.__init__\<close> assigns the attribute \<^verbatim>\<open>_mines_placed\<close>, while
  \<^verbatim>\<open>place_mines\<close> and \<^verbatim>\<open>reveal\<close> use the attribute \<^verbatim>\<open>mines_placed\<close>. They are
  two attributes of the object: \<open>priv_mines_placed\<close> is the first, and
  \<open>mines_placed\<close> is the second, \<open>None\<close> as long as nothing has assigned it
  (reading it then raises \<^verbatim>\<open>AttributeError\<close>).
\<close>

record Board =
  cols :: int
  rows :: int
  num_mines :: int
  cells :: "Cell list"
  priv_mines_placed :: bool
  mines_placed :: "bool option"
  revealed_count :: int
  game_over :: bool
  win :: bool

definition CellState_init :: CellState where
  "CellState_init = \<lparr>is_mine = False, is_revealed = False, is_flagged = False, adjacent = 0\<rparr>"

definition Cell_init :: "int \<Rightarrow> int \<Rightarrow> Cell" where
  "Cell_init c r = \<lparr>col = c, row = r, state = CellState_init\<rparr>"

text \<open>\<^verbatim>\<open>[(c, r) for r in range(rows) for c in range(cols)]\<close>: row-major, empty when a
  dimension is not positive.\<close>

definition positions :: "int \<Rightarrow> int \<Rightarrow> (int \<times> int) list" where
  "positions cs rws = [(c, r). r \<leftarrow> [0..rws - 1], c \<leftarrow> [0..cs - 1]]"

definition Board_init :: "int \<Rightarrow> int \<Rightarrow> int \<Rightarrow> Board" where
  "Board_init cs rws mines =
     \<lparr>cols = cs, rows = rws, num_mines = mines,
      cells = map (\<lambda>(c, r). Cell_init c r) (positions cs rws),
      priv_mines_placed = False, mines_placed = None,
      revealed_count = 0, game_over = False, win = False\<rparr>"

subsection \<open>Indexing\<close>

definition index :: "Board \<Rightarrow> int \<Rightarrow> int \<Rightarrow> int" where
  "index b c r = r * cols b + c"

definition is_inbounds :: "Board \<Rightarrow> int \<Rightarrow> int \<Rightarrow> bool" where
  "is_inbounds b c r = (0 \<le> c \<and> c < cols b \<and> 0 \<le> r \<and> r < rows b)"

definition deltas :: "(int \<times> int) list" where
  "deltas = [(-1, -1), (0, -1), (1, -1),
             (-1, 0),           (1, 0),
             (-1, 1),  (0, 1),  (1, 1)]"

definition neighbors :: "Board \<Rightarrow> int \<Rightarrow> int \<Rightarrow> (int \<times> int) list" where
  "neighbors b c r =
     filter (\<lambda>(nc, nr). is_inbounds b nc nr) (map (\<lambda>(dc, dr). (c + dc, r + dr)) deltas)"

text \<open>
  The position that \<^verbatim>\<open>xs[i]\<close> reads in a Python list: a negative index counts from the
  end, and an index outside \<open>-len .. len - 1\<close> raises \<^verbatim>\<open>IndexError\<close> (\<open>None\<close> here).
\<close>

definition norm_index :: "'a list \<Rightarrow> int \<Rightarrow> nat option" where
  "norm_index xs i =
     (if 0 \<le> i \<and> i < int (length xs) then Some (nat i)
      else if i < 0 \<and> - int (length xs) \<le> i then Some (nat (int (length xs) + i))
      else None)"

text \<open>\<^verbatim>\<open>self.cells[idx].state.<field> = v\<close>: the cell object at position \<open>i\<close> is mutated.\<close>

definition set_cell :: "Board \<Rightarrow> nat \<Rightarrow> (CellState \<Rightarrow> CellState) \<Rightarrow> Board" where
  "set_cell b i f = b\<lparr>cells := (cells b)[i := (cells b ! i)\<lparr>state := f (state (cells b ! i))\<rparr>]\<rparr>"

subsection \<open>Mine placement\<close>

text \<open>
  \<^verbatim>\<open>random.sample(pool, k)\<close> returns the elements at \<open>k\<close> distinct positions of the
  pool, in the order drawn. The draws are the parameter \<open>ds\<close>: each draw picks a position
  of what is left of the pool (position 0 once the draws are used up), so every outcome
  of the library call is the outcome of some \<open>ds\<close>.
\<close>

fun sample :: "nat list \<Rightarrow> 'a list \<Rightarrow> nat \<Rightarrow> 'a list" where
  "sample ds pool 0 = []"
| "sample ds pool (Suc k) =
     (if pool = [] then []
      else let i = (case ds of [] \<Rightarrow> 0 | d # _ \<Rightarrow> d mod length pool)
           in pool ! i # sample (tl ds) (take i pool @ drop (Suc i) pool) k)"

text \<open>The loop over \<^verbatim>\<open>mine_locs\<close>; the assignment to \<^verbatim>\<open>mines_placed\<close> is in its body.\<close>

fun mark_mines :: "Board \<Rightarrow> (int \<times> int) list \<Rightarrow> error + Board" where
  "mark_mines b [] = Inr b"
| "mark_mines b ((mc, mr) # locs) =
     (case norm_index (cells b) (index b mc mr) of
        None \<Rightarrow> Inl IndexError
      | Some idx \<Rightarrow>
          mark_mines ((set_cell b idx (\<lambda>s. s\<lparr>is_mine := True\<rparr>))\<lparr>mines_placed := Some True\<rparr>) locs)"

text \<open>The inner loop that counts the mines among the neighbours of one cell.\<close>

fun count_mines :: "Board \<Rightarrow> (int \<times> int) list \<Rightarrow> int \<Rightarrow> error + int" where
  "count_mines b [] mine_count = Inr mine_count"
| "count_mines b ((nc, nr) # ps) mine_count =
     (case norm_index (cells b) (index b nc nr) of
        None \<Rightarrow> Inl IndexError
      | Some n_idx \<Rightarrow>
          count_mines b ps
            (if is_mine (state (cells b ! n_idx)) then mine_count + 1 else mine_count))"

text \<open>The two nested loops over rows and columns, as one loop over the row-major
  positions.\<close>

fun compute_adjacent :: "Board \<Rightarrow> (int \<times> int) list \<Rightarrow> error + Board" where
  "compute_adjacent b [] = Inr b"
| "compute_adjacent b ((c, r) # ps) =
     (case norm_index (cells b) (index b c r) of
        None \<Rightarrow> Inl IndexError
      | Some idx \<Rightarrow>
          if \<not> is_mine (state (cells b ! idx)) then
            (case count_mines b (neighbors b c r) 0 of
               Inl e \<Rightarrow> Inl e
             | Inr mine_count \<Rightarrow>
                 compute_adjacent (set_cell b idx (\<lambda>s. s\<lparr>adjacent := mine_count\<rparr>)) ps)
          else compute_adjacent b ps)"

text \<open>\<^verbatim>\<open>random.sample\<close> raises \<^verbatim>\<open>ValueError\<close> for a negative sample size.\<close>

definition place_mines :: "nat list \<Rightarrow> Board \<Rightarrow> int \<Rightarrow> int \<Rightarrow> error + Board" where
  "place_mines ds b safe_col safe_row =
     (let forbidden = set ((safe_col, safe_row) # neighbors b safe_col safe_row);
          all_positions = positions (cols b) (rows b);
          pool = filter (\<lambda>p. p \<notin> forbidden) all_positions;
          count = min (num_mines b) (int (length pool))
      in if count < 0 then Inl ValueError
         else case mark_mines b (sample ds pool (nat count)) of
                Inl e \<Rightarrow> Inl e
              | Inr b1 \<Rightarrow> compute_adjacent b1 (positions (cols b1) (rows b1)))"

subsection \<open>End of game\<close>

definition reveal_all_mines :: "Board \<Rightarrow> Board" where
  "reveal_all_mines b =
     b\<lparr>cells := map (\<lambda>cell. if is_mine (state cell)
                             then cell\<lparr>state := (state cell)\<lparr>is_revealed := True\<rparr>\<rparr>
                             else cell) (cells b)\<rparr>"

definition check_win :: "Board \<Rightarrow> Board" where
  "check_win b =
     (let total_cells = cols b * rows b
      in if revealed_count b = total_cells - num_mines b \<and> \<not> game_over b
         then b\<lparr>win := True,
                cells := map (\<lambda>cell. if \<not> is_revealed (state cell) \<and> \<not> is_mine (state cell)
                                      then cell\<lparr>state := (state cell)\<lparr>is_revealed := True\<rparr>\<rparr>
                                      else cell) (cells b)\<rparr>
         else b)"

subsection \<open>Reveal and flag\<close>

text \<open>
  \<^verbatim>\<open>reveal\<close> calls itself on the neighbours of a cell without adjacent mines. The first
  argument bounds the depth of the nested calls: \<open>None\<close> means that the bound was
  reached, \<open>Some (Inl e)\<close> that \<open>e\<close> was raised, \<open>Some (Inr b)\<close> that the call returned
  with board \<open>b\<close>. \<open>reveal_each\<close> is the loop over the neighbours.
\<close>

fun reveal :: "nat \<Rightarrow> nat list \<Rightarrow> Board \<Rightarrow> int \<Rightarrow> int \<Rightarrow> (error + Board) option"
and reveal_each :: "nat \<Rightarrow> nat list \<Rightarrow> Board \<Rightarrow> (int \<times> int) list \<Rightarrow> (error + Board) option"
where
  "reveal 0 ds b c r = None"
| "reveal (Suc n) ds b c r =
     (if \<not> is_inbounds b c r then Some (Inr b)
      else case mines_placed b of
        None \<Rightarrow> Some (Inl AttributeError)
      | Some placed \<Rightarrow>
         (case (if \<not> placed then place_mines ds b c r else Inr b) of
            Inl e \<Rightarrow> Some (Inl e)
          | Inr b1 \<Rightarrow>
             (case norm_index (cells b1) (index b1 c r) of
                None \<Rightarrow> Some (Inl IndexError)
              | Some idx \<Rightarrow>
                  let cell = cells b1 ! idx in
                  if is_revealed (state cell) \<or> is_flagged (state cell) then Some (Inr b1)
                  else
                    let b2 = set_cell b1 idx (\<lambda>s. s\<lparr>is_revealed := True\<rparr>) in
                    if is_mine (state cell)
                    then Some (Inr (reveal_all_mines (b2\<lparr>game_over := True\<rparr>)))
                    else
                      (case (if adjacent (state cell) = 0
                             then reveal_each n ds b2 (neighbors b2 c r)
                             else Some (Inr b2)) of
                         None \<Rightarrow> None
                       | Some (Inl e) \<Rightarrow> Some (Inl e)
                       | Some (Inr b3) \<Rightarrow> Some (Inr (check_win b3))))))"
| "reveal_each n ds b [] = Some (Inr b)"
| "reveal_each n ds b ((nc, nr) # ps) =
     (case reveal n ds b nc nr of
        None \<Rightarrow> None
      | Some (Inl e) \<Rightarrow> Some (Inl e)
      | Some (Inr b') \<Rightarrow> reveal_each n ds b' ps)"

definition toggle_flag :: "Board \<Rightarrow> int \<Rightarrow> int \<Rightarrow> error + Board" where
  "toggle_flag b c r =
     (if \<not> is_inbounds b c r then Inr b
      else case norm_index (cells b) (index b c r) of
        None \<Rightarrow> Inl IndexError
      | Some idx \<Rightarrow>
          if is_revealed (state (cells b ! idx)) then Inr b
          else Inr (set_cell b idx (\<lambda>s. s\<lparr>is_flagged := \<not> is_flagged s\<rparr>)))"

text \<open>The body of \<^verbatim>\<open>flagged_count\<close> is \<^verbatim>\<open>pass\<close>: the call returns Python's \<^verbatim>\<open>None\<close>
  and leaves the board as it is.\<close>

definition flagged_count :: "Board \<Rightarrow> int option \<times> Board" where
  "flagged_count b = (None, b)"

subsection \<open>Sequences of calls\<close>

datatype call =
    Reveal int int
  | ToggleFlag int int
  | PlaceMines int int
  | RevealAllMines
  | CheckWin

fun do_call :: "nat \<Rightarrow> nat list \<Rightarrow> Board \<Rightarrow> call \<Rightarrow> (error + Board) option" where
  "do_call n ds b (Reveal c r) = reveal n ds b c r"
| "do_call n ds b (ToggleFlag c r) = Some (toggle_flag b c r)"
| "do_call n ds b (PlaceMines c r) = Some (place_mines ds b c r)"
| "do_call n ds b RevealAllMines = Some (Inr (reveal_all_mines b))"
| "do_call n ds b CheckWin = Some (Inr (check_win b))"

text \<open>A sequence of calls stops at the first exception.\<close>

fun run :: "nat \<Rightarrow> nat list \<Rightarrow> Board \<Rightarrow> call list \<Rightarrow> (error + Board) option" where
  "run n ds b [] = Some (Inr b)"
| "run n ds b (x # xs) =
     (case do_call n ds b x of
        None \<Rightarrow> None
      | Some (Inl e) \<Rightarrow> Some (Inl e)
      | Some (Inr b') \<Rightarrow> run n ds b' xs)"

subsection \<open>Observations\<close>

definition cell_at :: "Board \<Rightarrow> int \<times> int \<Rightarrow> Cell" where
  "cell_at b p = cells b ! nat (index b (fst p) (snd p))"

definition count_revealed :: "Board \<Rightarrow> nat" where
  "count_revealed b = length (filter (\<lambda>cell. is_revealed (state cell)) (cells b))"

definition unrevealed :: "Board \<Rightarrow> nat" where
  "unrevealed b = length (filter (\<lambda>cell. \<not> is_revealed (state cell)) (cells b))"

definition count_flagged :: "Board \<Rightarrow> nat" where
  "count_flagged b = length (filter (\<lambda>cell. is_flagged (state cell)) (cells b))"

text \<open>The number of mines among the in-bounds neighbours of a position.\<close>

definition mines_around :: "Board \<Rightarrow> int \<Rightarrow> int \<Rightarrow> nat" where
  "mines_around b c r = length (filter (\<lambda>p. is_mine (state (cell_at b p))) (neighbors b c r))"

text \<open>The layout that the constructor builds and every method keeps: the cells are the
  row-major positions of the grid, each cell carrying its own coordinates.\<close>

definition wf :: "Board \<Rightarrow> bool" where
  "wf b = (map (\<lambda>cell. (col cell, row cell)) (cells b) = positions (cols b) (rows b))"

subsection \<open>Example boards\<close>

text \<open>The 3 by 1 board with one mine after \<^verbatim>\<open>place_mines(0, 0)\<close>: the pool is the single
  position (2, 0).\<close>

definition example_board :: Board where
  "example_board =
     \<lparr>cols = 3, rows = 1, num_mines = 1,
      cells = [\<lparr>col = 0, row = 0, state = \<lparr>is_mine = False, is_revealed = False,
                                           is_flagged = False, adjacent = 0\<rparr>\<rparr>,
               \<lparr>col = 1, row = 0, state = \<lparr>is_mine = False, is_revealed = False,
                                           is_flagged = False, adjacent = 1\<rparr>\<rparr>,
               \<lparr>col = 2, row = 0, state = \<lparr>is_mine = True, is_revealed = False,
                                           is_flagged = False, adjacent = 0\<rparr>\<rparr>],
      priv_mines_placed = False, mines_placed = Some True,
      revealed_count = 0, game_over = False, win = False\<rparr>"

text \<open>The same board with a flag on the cell (0, 0), and after the mine was revealed.\<close>

definition flagged_board :: Board where
  "flagged_board = set_cell example_board 0 (\<lambda>s. s\<lparr>is_flagged := True\<rparr>)"

definition lost_board :: Board where
  "lost_board = (set_cell example_board 2 (\<lambda>s. s\<lparr>is_revealed := True\<rparr>))\<lparr>game_over := True\<rparr>"

text \<open>A constructed 3 by 1 board with a flag on the cell (0, 0).\<close>

definition fresh_flagged_board :: Board where
  "fresh_flagged_board = set_cell (Board_init 3 1 1) 0 (\<lambda>s. s\<lparr>is_flagged := True\<rparr>)"

text \<open>What a run keeps of the outcome: a flag that is set stays set, and \<open>win\<close> is not
  set once \<open>game_over\<close> is.\<close>

definition outcome_kept :: "Board \<Rightarrow> Board \<Rightarrow> bool" where
  "outcome_kept b b' =
     ((game_over b \<longrightarrow> game_over b') \<and> (win b \<longrightarrow> win b') \<and> (game_over b \<and> win b' \<longrightarrow> win b))"

section \<open>Properties\<close>

lemma Board_init_fields:
  "cols (Board_init cs rws m) = cs" "rows (Board_init cs rws m) = rws"
  "num_mines (Board_init cs rws m) = m" "mines_placed (Board_init cs rws m) = None"
  "revealed_count (Board_init cs rws m) = 0" "\<not> game_over (Board_init cs rws m)"
  "\<not> win (Board_init cs rws m)" "\<not> priv_mines_placed (Board_init cs rws m)"
  by (simp_all add: Board_init_def)

subsection \<open>Guards\<close>

lemma reveal_unassigned:
  "is_inbounds b c r \<Longrightarrow> mines_placed b = None \<Longrightarrow>
   reveal (Suc n) ds b c r = Some (Inl AttributeError)"
  by simp

lemma reveal_out_of_bounds:
  "\<not> is_inbounds b c r \<Longrightarrow> reveal (Suc n) ds b c r = Some (Inr b)"
  by simp

lemma toggle_flag_out_of_bounds:
  "\<not> is_inbounds b c r \<Longrightarrow> toggle_flag b c r = Inr b"
  by (simp add: toggle_flag_def)

subsection \<open>Runs on small boards\<close>

lemmas eval_defs = Board_init_def positions_def place_mines_def neighbors_def deltas_def
  is_inbounds_def index_def norm_index_def set_cell_def Cell_init_def CellState_init_def
  check_win_def reveal_all_mines_def Let_def upto.simps toggle_flag_def

text \<open>
  C1. On the board that \<^verbatim>\<open>Board(10, 10, 10)\<close> constructs, the first call
  \<^verbatim>\<open>reveal(5, 5)\<close> does not return: reading \<^verbatim>\<open>self.mines_placed\<close> raises
  \<^verbatim>\<open>AttributeError\<close>, because the constructor assigned \<^verbatim>\<open>_mines_placed\<close> only. (A call
  with coordinates out of bounds does return the board unchanged: \<open>reveal_out_of_bounds\<close>,
  \<open>toggle_flag_out_of_bounds\<close>.)
\<close>

theorem reveal_fresh_board_raises:
  "reveal (Suc n) ds (Board_init 10 10 10) 5 5 = Some (Inl AttributeError)"
  by (simp add: Board_init_fields is_inbounds_def)

text \<open>
  C2. On a 3 by 1 board with one mine, after \<^verbatim>\<open>place_mines(0, 0)\<close> and \<^verbatim>\<open>reveal(0, 0)\<close> two
  cells are revealed while \<open>revealed_count\<close> is still 0: no method ever assigns the
  counter after the constructor.
\<close>

theorem revealed_count_stays_zero:
  "map_option (map_sum id (\<lambda>b. (revealed_count b, count_revealed b)))
     (run 2 ds (Board_init 3 1 1) [PlaceMines 0 0, Reveal 0 0]) = Some (Inr (0, 2))"
  by (simp add: eval_defs count_revealed_def numeral_2_eq_2 split: list.splits)

text \<open>
  C3. On the same board, \<^verbatim>\<open>reveal(1, 0)\<close> leaves the cell (0, 0) as the last unrevealed
  cell without a mine, and \<^verbatim>\<open>reveal(0, 0)\<close> then reveals it with \<open>game_over\<close> false; yet
  \<open>win\<close> stays false, since \<^verbatim>\<open>_check_win\<close> compares the counter that is still 0 with the
  number of cells without a mine. Each triple is \<open>(game_over, win, cells)\<close>, a cell shown
  as \<open>(is_mine, is_revealed)\<close>.
\<close>

theorem win_not_set:
  "map_option (map_sum id (\<lambda>b. (game_over b, win b,
        map (\<lambda>cell. (is_mine (state cell), is_revealed (state cell))) (cells b))))
     (run 1 ds (Board_init 3 1 1) [PlaceMines 0 0, Reveal 1 0])
     = Some (Inr (False, False, [(False, False), (False, True), (True, False)])) \<and>
   map_option (map_sum id (\<lambda>b. (game_over b, win b,
        map (\<lambda>cell. (is_mine (state cell), is_revealed (state cell))) (cells b))))
     (run 2 ds (Board_init 3 1 1) [PlaceMines 0 0, Reveal 1 0, Reveal 0 0])
     = Some (Inr (False, False, [(False, True), (False, True), (True, False)]))"
  by (simp add: eval_defs numeral_2_eq_2 split: list.splits)

text \<open>
  C6. After one flag has been set on a fresh 2 by 2 board, one cell is flagged, and
  \<^verbatim>\<open>flagged_count()\<close> returns \<^verbatim>\<open>None\<close>, not 1; the board is the same after the call.
\<close>

theorem flagged_count_returns_None:
  "map_sum id (\<lambda>b. (count_flagged b, fst (flagged_count b), snd (flagged_count b) = b))
     (toggle_flag (Board_init 2 2 0) 0 0) = Inr (1, None, True)"
  by (simp add: eval_defs count_flagged_def flagged_count_def)

text \<open>
  C8. A constructed board has \<^verbatim>\<open>_mines_placed\<close> false and no attribute
  \<^verbatim>\<open>mines_placed\<close>; its first in-bounds \<^verbatim>\<open>reveal\<close> raises \<^verbatim>\<open>AttributeError\<close> at the test
  of \<^verbatim>\<open>self.mines_placed\<close>, before \<^verbatim>\<open>place_mines\<close> is reached.
\<close>

theorem mines_placed_never_assigned:
  "mines_placed (Board_init 10 10 10) = None \<and>
   \<not> priv_mines_placed (Board_init 10 10 10) \<and>
   run (Suc n) ds (Board_init 10 10 10) [Reveal 5 5] = Some (Inl AttributeError)"
  by (simp add: Board_init_fields is_inbounds_def)

text \<open>When no mine is placed, the body of the loop over \<^verbatim>\<open>mine_locs\<close> never runs, and
  with it the assignment \<^verbatim>\<open>self.mines_placed = True\<close>.\<close>

lemma place_mines_without_mines:
  "map_sum id mines_placed
     (place_mines ds ((Board_init 3 3 0)\<lparr>mines_placed := Some False\<rparr>) 1 1) = Inr (Some False)"
  by (simp add: eval_defs)

subsection \<open>Termination of the flood fill\<close>

lemma set_cell_fields [simp]:
  "cols (set_cell b i f) = cols b" "rows (set_cell b i f) = rows b"
  "num_mines (set_cell b i f) = num_mines b" "mines_placed (set_cell b i f) = mines_placed b"
  "revealed_count (set_cell b i f) = revealed_count b" "game_over (set_cell b i f) = game_over b"
  "win (set_cell b i f) = win b" "length (cells (set_cell b i f)) = length (cells b)"
  by (simp_all add: set_cell_def)

lemma norm_index_less: "norm_index xs i = Some k \<Longrightarrow> k < length xs"
  by (auto simp: norm_index_def split: if_splits)

lemma filter_update_keep:
  "P y = P (xs ! i) \<Longrightarrow> length (filter P (xs[i := y])) = length (filter P xs)"
proof (induction xs arbitrary: i)
  case Nil
  then show ?case by simp
next
  case (Cons x xs)
  then show ?case by (cases i) auto
qed

lemma filter_update_drop:
  "i < length xs \<Longrightarrow> P (xs ! i) \<Longrightarrow> \<not> P y \<Longrightarrow>
   Suc (length (filter P (xs[i := y]))) = length (filter P xs)"
proof (induction xs arbitrary: i)
  case Nil
  then show ?case by simp
next
  case (Cons x xs)
  then show ?case by (cases i) auto
qed

lemma unrevealed_set_cell_keep:
  "is_revealed (f (state (cells b ! i))) = is_revealed (state (cells b ! i)) \<Longrightarrow>
   unrevealed (set_cell b i f) = unrevealed b"
  by (simp add: unrevealed_def set_cell_def filter_update_keep)

lemma unrevealed_set_cell_reveal:
  "i < length (cells b) \<Longrightarrow> \<not> is_revealed (state (cells b ! i)) \<Longrightarrow>
   Suc (unrevealed (set_cell b i (\<lambda>s. s\<lparr>is_revealed := True\<rparr>))) = unrevealed b"
  by (simp add: unrevealed_def set_cell_def filter_update_drop)

lemma filter_length_mono:
  "(\<And>x. P x \<Longrightarrow> Q x) \<Longrightarrow> length (filter P xs) \<le> length (filter Q xs)"
  by (induction xs) (auto simp: le_SucI)

lemma unrevealed_reveal_all_mines: "unrevealed (reveal_all_mines b) \<le> unrevealed b"
  unfolding unrevealed_def reveal_all_mines_def
  by (simp add: o_def, rule filter_length_mono) (simp split: if_splits)

lemma unrevealed_check_win: "unrevealed (check_win b) \<le> unrevealed b"
  unfolding unrevealed_def check_win_def Let_def
  by (simp add: o_def, intro impI, rule filter_length_mono) (simp split: if_splits)

lemma unrevealed_game_over [simp]: "unrevealed (b\<lparr>game_over := g\<rparr>) = unrevealed b"
  by (simp add: unrevealed_def)

lemma unrevealed_mines_placed [simp]: "unrevealed (b\<lparr>mines_placed := g\<rparr>) = unrevealed b"
  by (simp add: unrevealed_def)

lemma mark_mines_unrevealed: "mark_mines b locs = Inr b' \<Longrightarrow> unrevealed b' = unrevealed b"
proof (induction locs arbitrary: b)
  case Nil
  then show ?case by simp
next
  case (Cons p locs)
  obtain mc mr where p: "p = (mc, mr)" by (cases p)
  from Cons.prems obtain idx where
    step: "mark_mines ((set_cell b idx (\<lambda>s. s\<lparr>is_mine := True\<rparr>))\<lparr>mines_placed := Some True\<rparr>) locs = Inr b'"
    by (auto simp: p split: option.splits)
  from Cons.IH[OF step] show ?case by (simp add: unrevealed_set_cell_keep)
qed

lemma compute_adjacent_unrevealed:
  "compute_adjacent b ps = Inr b' \<Longrightarrow> unrevealed b' = unrevealed b"
proof (induction ps arbitrary: b)
  case Nil
  then show ?case by simp
next
  case (Cons p ps)
  obtain c r where p: "p = (c, r)" by (cases p)
  from Cons.prems Cons.IH show ?case
    by (auto simp: p unrevealed_set_cell_keep split: option.splits if_splits sum.splits)
qed

lemma place_mines_unrevealed: "place_mines ds b c r = Inr b' \<Longrightarrow> unrevealed b' = unrevealed b"
  by (auto simp: place_mines_def Let_def split: if_splits sum.splits
      dest!: mark_mines_unrevealed compute_adjacent_unrevealed)

lemma reveal_each_preserves:
  assumes refl: "\<And>b. R b b"
    and trans: "\<And>a b c. R a b \<Longrightarrow> R b c \<Longrightarrow> R a c"
    and one: "\<And>b c r b'. reveal n ds b c r = Some (Inr b') \<Longrightarrow> R b b'"
  shows "reveal_each n ds b ps = Some (Inr b') \<Longrightarrow> R b b'"
proof (induction ps arbitrary: b)
  case Nil
  then show ?case by (simp add: refl)
next
  case (Cons p ps)
  obtain nc nr where p: "p = (nc, nr)" by (cases p)
  from Cons.prems obtain b1 where
    first: "reveal n ds b nc nr = Some (Inr b1)" and rest: "reveal_each n ds b1 ps = Some (Inr b')"
    by (auto simp: p split: option.splits sum.splits)
  from one[OF first] Cons.IH[OF rest] show ?case by (rule trans)
qed

lemma reveal_preserves:
  assumes refl: "\<And>b. R b b"
    and trans: "\<And>a b c. R a b \<Longrightarrow> R b c \<Longrightarrow> R a c"
    and place: "\<And>b c r b'. place_mines ds b c r = Inr b' \<Longrightarrow> R b b'"
    and mark: "\<And>b i. i < length (cells b) \<Longrightarrow> \<not> is_revealed (state (cells b ! i)) \<Longrightarrow>
                 R b (set_cell b i (\<lambda>s. s\<lparr>is_revealed := True\<rparr>))"
    and lose: "\<And>b. R b (reveal_all_mines (b\<lparr>game_over := True\<rparr>))"
    and check: "\<And>b. R b (check_win b)"
  shows "reveal n ds b c r = Some (Inr b') \<Longrightarrow> R b b'"
proof (induction n arbitrary: b c r b')
  case 0
  then show ?case by simp
next
  case (Suc n)
  have each: "R x y" if "reveal_each n ds x ps = Some (Inr y)" for x ps y
  proof (rule reveal_each_preserves[where R = R])
    show "reveal_each n ds x ps = Some (Inr y)" by (rule that)
  qed (rule refl, erule (1) trans, erule Suc.IH)
  show ?case
  proof (cases "is_inbounds b c r")
    case False
    with Suc.prems show ?thesis by (simp add: refl)
  next
    case True
    with Suc.prems obtain placed where mp: "mines_placed b = Some placed"
      by (auto split: option.splits)
    from Suc.prems True mp obtain b1 where
      b1: "(if \<not> placed then place_mines ds b c r else Inr b) = Inr b1"
      by (auto split: sum.splits)
    then have R1: "R b b1" by (auto split: if_splits intro: refl place)
    from Suc.prems True mp b1 obtain idx where
      idx: "norm_index (cells b1) (index b1 c r) = Some idx"
      by (auto split: option.splits)
    then have less: "idx < length (cells b1)" by (rule norm_index_less)
    define b2 where "b2 = set_cell b1 idx (\<lambda>s. s\<lparr>is_revealed := True\<rparr>)"
    show ?thesis
    proof (cases "is_revealed (state (cells b1 ! idx)) \<or> is_flagged (state (cells b1 ! idx))")
      case True
      with Suc.prems \<open>is_inbounds b c r\<close> mp b1 idx have "b' = b1" by (simp add: Let_def)
      with R1 show ?thesis by simp
    next
      case False
      then have R2: "R b1 b2" unfolding b2_def using less by (intro mark) simp_all
      show ?thesis
      proof (cases "is_mine (state (cells b1 ! idx))")
        case True
        with Suc.prems \<open>is_inbounds b c r\<close> mp b1 idx False
        have "b' = reveal_all_mines (b2\<lparr>game_over := True\<rparr>)"
          by (simp add: Let_def b2_def)
        then have "R b2 b'" by (simp add: lose)
        with R1 R2 show ?thesis by (blast intro: trans)
      next
        case nomine: False
        define inner where "inner = (if adjacent (state (cells b1 ! idx)) = 0
                then reveal_each n ds b2 (neighbors b2 c r) else Some (Inr b2))"
        from \<open>is_inbounds b c r\<close> mp b1 idx False nomine
        have "reveal (Suc n) ds b c r =
                (case inner of None \<Rightarrow> None | Some (Inl e) \<Rightarrow> Some (Inl e)
                 | Some (Inr b3) \<Rightarrow> Some (Inr (check_win b3)))"
          by (simp add: Let_def b2_def inner_def)
        with Suc.prems obtain b3 where b3: "inner = Some (Inr b3)" and b': "b' = check_win b3"
          by (auto split: option.splits sum.splits)
        from b3 have "R b2 b3" unfolding inner_def by (auto split: if_splits intro: refl each)
        moreover have "R b3 b'" by (simp add: b' check)
        ultimately show ?thesis using R1 R2 by (blast intro: trans)
      qed
    qed
  qed
qed

lemma reveal_unrevealed_le:
  "reveal n ds b c r = Some (Inr b') \<Longrightarrow> unrevealed b' \<le> unrevealed b"
proof (rule reveal_preserves[where R = "\<lambda>b b'. unrevealed b' \<le> unrevealed b"])
  fix b :: Board and i
  assume "i < length (cells b)" "\<not> is_revealed (state (cells b ! i))"
  then show "unrevealed (set_cell b i (\<lambda>s. s\<lparr>is_revealed := True\<rparr>)) \<le> unrevealed b"
    using unrevealed_set_cell_reveal[of i b] by simp
next
  fix b :: Board
  show "unrevealed (reveal_all_mines (b\<lparr>game_over := True\<rparr>)) \<le> unrevealed b"
    using unrevealed_reveal_all_mines[of "b\<lparr>game_over := True\<rparr>"] by simp
qed (simp_all add: place_mines_unrevealed unrevealed_check_win)

lemma reveal_each_returns:
  assumes one: "\<And>b c r. unrevealed b < n \<Longrightarrow> \<exists>res. reveal n ds b c r = Some res"
  shows "unrevealed b < n \<Longrightarrow> \<exists>res. reveal_each n ds b ps = Some res"
proof (induction ps arbitrary: b)
  case Nil
  then show ?case by simp
next
  case (Cons p ps)
  obtain nc nr where p: "p = (nc, nr)" by (cases p)
  from one[OF Cons.prems] obtain res where res: "reveal n ds b nc nr = Some res" by blast
  show ?case
  proof (cases res)
    case (Inl e)
    with res show ?thesis by (simp add: p)
  next
    case (Inr b1)
    with res have "unrevealed b1 \<le> unrevealed b" by (simp add: reveal_unrevealed_le)
    with Cons.prems have "unrevealed b1 < n" by simp
    from Cons.IH[OF this] res Inr show ?thesis by (simp add: p)
  qed
qed

lemma reveal_returns:
  "unrevealed b < n \<Longrightarrow> \<exists>res. reveal n ds b c r = Some res"
proof (induction n arbitrary: b c r)
  case 0
  then show ?case by simp
next
  case (Suc n)
  have each: "\<exists>res. reveal_each n ds x ps = Some res" if "unrevealed x < n" for x ps
    using that by (rule reveal_each_returns[rotated]) (rule Suc.IH)
  show ?case
  proof (cases "is_inbounds b c r")
    case False
    then show ?thesis by simp
  next
    case True
    show ?thesis
    proof (cases "mines_placed b")
      case None
      with True show ?thesis by simp
    next
      case (Some placed)
      show ?thesis
      proof (cases "if \<not> placed then place_mines ds b c r else Inr b")
        case (Inl e)
        with True Some show ?thesis by simp
      next
        case (Inr b1)
        then have u1: "unrevealed b1 = unrevealed b"
          by (auto split: if_splits dest: place_mines_unrevealed)
        show ?thesis
        proof (cases "norm_index (cells b1) (index b1 c r)")
          case None
          with True Some Inr show ?thesis by simp
        next
          case (Some idx)
          then have less: "idx < length (cells b1)" by (rule norm_index_less)
          define b2 where "b2 = set_cell b1 idx (\<lambda>s. s\<lparr>is_revealed := True\<rparr>)"
          show ?thesis
          proof (cases "is_revealed (state (cells b1 ! idx))")
            case True
            with \<open>is_inbounds b c r\<close> \<open>mines_placed b = Some placed\<close> Inr Some
            show ?thesis by (simp add: Let_def)
          next
            case False
            with less have "Suc (unrevealed b2) = unrevealed b1"
              unfolding b2_def by (rule unrevealed_set_cell_reveal)
            with u1 Suc.prems have "unrevealed b2 < n" by simp
            from each[OF this] obtain res where
              "reveal_each n ds b2 (neighbors b2 c r) = Some res" by blast
            with \<open>is_inbounds b c r\<close> \<open>mines_placed b = Some placed\<close> Inr Some
            show ?thesis by (simp add: Let_def b2_def split: sum.splits)
          qed
        qed
      qed
    qed
  qed
qed

text \<open>
  C10. Every call of \<^verbatim>\<open>reveal\<close> returns or raises, on every board and for all integer
  coordinates: a nesting depth of one more than the number of unrevealed cells is never
  exceeded, because a nested call is made only after a cell has gone from unrevealed to
  revealed (\<open>unrevealed_set_cell_reveal\<close>) and no call makes a revealed cell unrevealed
  (\<open>reveal_unrevealed_le\<close>).
\<close>

theorem reveal_terminates:
  "reveal (Suc (unrevealed b)) ds b c r \<noteq> None"
  using reveal_returns[of b "Suc (unrevealed b)" ds c r] by auto

text \<open>A larger bound on the nesting depth does not change a result.\<close>

lemma reveal_each_fuel_step:
  assumes one: "\<And>b c r res. reveal n ds b c r = Some res \<Longrightarrow> reveal (Suc n) ds b c r = Some res"
  shows "reveal_each n ds b ps = Some res \<Longrightarrow> reveal_each (Suc n) ds b ps = Some res"
proof (induction ps arbitrary: b)
  case Nil
  then show ?case by simp
next
  case (Cons p ps)
  obtain nc nr where p: "p = (nc, nr)" by (cases p)
  from Cons.prems obtain x where x: "reveal n ds b nc nr = Some x"
    by (auto simp: p split: option.splits)
  have x': "reveal (Suc n) ds b nc nr = Some x" by (rule one[OF x])
  show ?case
  proof (cases x)
    case (Inl e)
    with Cons.prems x have "res = Inl e" by (simp add: p)
    with x' Inl show ?thesis by (simp add: p del: reveal.simps)
  next
    case (Inr b1)
    with Cons.prems x have "reveal_each n ds b1 ps = Some res" by (simp add: p)
    from Cons.IH[OF this] x' Inr show ?thesis by (simp add: p del: reveal.simps)
  qed
qed

lemma reveal_fuel_step:
  "reveal n ds b c r = Some res \<Longrightarrow> reveal (Suc n) ds b c r = Some res"
proof (induction n arbitrary: b c r res)
  case 0
  then show ?case by simp
next
  case (Suc n)
  have each: "reveal_each (Suc n) ds x ps = Some y" if "reveal_each n ds x ps = Some y" for x ps y
    using that by (rule reveal_each_fuel_step[rotated]) (rule Suc.IH)
  show ?case
  proof (cases "is_inbounds b c r")
    case False
    with Suc.prems show ?thesis by simp
  next
    case True
    show ?thesis
    proof (cases "mines_placed b")
      case None
      with True Suc.prems show ?thesis by simp
    next
      case (Some placed)
      show ?thesis
      proof (cases "if \<not> placed then place_mines ds b c r else Inr b")
        case (Inl e)
        with True Some Suc.prems show ?thesis by auto
      next
        case (Inr b1)
        show ?thesis
        proof (cases "norm_index (cells b1) (index b1 c r)")
          case None
          with True \<open>mines_placed b = Some placed\<close> Inr Suc.prems show ?thesis by auto
        next
          case (Some idx)
          define b2 where "b2 = set_cell b1 idx (\<lambda>s. s\<lparr>is_revealed := True\<rparr>)"
          define stop where "stop \<longleftrightarrow> is_revealed (state (cells b1 ! idx)) \<or>
            is_flagged (state (cells b1 ! idx)) \<or> is_mine (state (cells b1 ! idx)) \<or>
            adjacent (state (cells b1 ! idx)) \<noteq> 0"
          show ?thesis
          proof (cases stop)
            case True
            with \<open>is_inbounds b c r\<close> \<open>mines_placed b = Some placed\<close> Inr Some
            have "reveal (Suc (Suc n)) ds b c r = reveal (Suc n) ds b c r"
              unfolding stop_def by (auto simp: Let_def)
            with Suc.prems show ?thesis by simp
          next
            case False
            with \<open>is_inbounds b c r\<close> \<open>mines_placed b = Some placed\<close> Inr Some
            have unfolded: "reveal (Suc k) ds b c r =
                (case reveal_each k ds b2 (neighbors b2 c r) of None \<Rightarrow> None
                 | Some (Inl e) \<Rightarrow> Some (Inl e)
                 | Some (Inr b3) \<Rightarrow> Some (Inr (check_win b3)))" for k
              unfolding stop_def by (simp add: Let_def b2_def)
            from Suc.prems obtain y where y: "reveal_each n ds b2 (neighbors b2 c r) = Some y"
              unfolding unfolded by (auto split: option.splits)
            from each[OF y] Suc.prems y show ?thesis unfolding unfolded by simp
          qed
        qed
      qed
    qed
  qed
qed

lemma reveal_fuel_mono:
  "n \<le> m \<Longrightarrow> reveal n ds b c r = Some res \<Longrightarrow> reveal m ds b c r = Some res"
  by (induction m rule: dec_induct) (auto intro: reveal_fuel_step simp del: reveal.simps)

subsection \<open>The layout of the grid\<close>

lemma positions_product:
  "positions cs rws = map (\<lambda>(r, c). (c, r)) (List.product [0..rws - 1] [0..cs - 1])"
  unfolding positions_def product_concat_map map_concat by (simp add: o_def)

lemma length_positions: "length (positions cs rws) = nat rws * nat cs"
  unfolding positions_product by (simp add: length_product)

lemma set_positions:
  "set (positions cs rws) = {(c, r). 0 \<le> c \<and> c < cs \<and> 0 \<le> r \<and> r < rws}"
  unfolding positions_product by auto

lemma nth_positions:
  assumes "i < nat rws * nat cs"
  shows "positions cs rws ! i = (int (i mod nat cs), int (i div nat cs))"
proof -
  from assms have cs: "0 < nat cs" by (cases "nat cs") auto
  have m: "i mod nat cs < nat cs" using cs by simp
  have d: "i div nat cs < nat rws" using assms cs
    by (simp add: less_mult_imp_div_less)
  have len: "i < length (List.product [0..rws - 1] [0..cs - 1])"
    using assms by (simp add: length_product)
  have "positions cs rws ! i = (\<lambda>(r, c). (c, r)) (List.product [0..rws - 1] [0..cs - 1] ! i)"
    unfolding positions_product using len by (rule nth_map)
  also have "List.product [0..rws - 1] [0..cs - 1] ! i =
       ([0..rws - 1] ! (i div nat cs), [0..cs - 1] ! (i mod nat cs))"
    using product_nth[of i "[0..rws - 1]" "[0..cs - 1]"] assms by simp
  also have "[0..rws - 1] ! (i div nat cs) = int (i div nat cs)"
    using d by (subst nth_upto) simp_all
  also have "[0..cs - 1] ! (i mod nat cs) = int (i mod nat cs)"
    using m by (subst nth_upto) simp_all
  finally show ?thesis by simp
qed

lemma inbounds_index:
  assumes "is_inbounds b c r"
  shows "0 \<le> index b c r" and "nat (index b c r) < nat (rows b) * nat (cols b)"
    and "nat (index b c r) mod nat (cols b) = nat c" and "nat (index b c r) div nat (cols b) = nat r"
proof -
  from assms have c: "0 \<le> c" "c < cols b" and r: "0 \<le> r" "r < rows b"
    by (simp_all add: is_inbounds_def)
  define C R c' r' where "C = nat (cols b)" and "R = nat (rows b)" and "c' = nat c" and "r' = nat r"
  have C: "cols b = int C" and R: "rows b = int R" and c': "c = int c'" and r': "r = int r'"
    using c r by (simp_all add: C_def R_def c'_def r'_def)
  have lt: "c' < C" "r' < R" using c r by (simp_all add: C R c' r')
  have "index b c r = int r' * int C + int c'" by (simp add: index_def C c' r')
  then have idx: "index b c r = int (r' * C + c')" by simp
  then have n: "nat (index b c r) = r' * C + c'" by (simp only: nat_int)
  have CR: "nat (cols b) = C" "nat (rows b) = R" "nat c = c'" "nat r = r'"
    by (simp_all add: C_def R_def c'_def r'_def)
  show "0 \<le> index b c r" unfolding idx by simp
  have "r' * C + c' < r' * C + C" using lt by simp
  also have "\<dots> = Suc r' * C" by simp
  also have "\<dots> \<le> R * C" using lt by (intro mult_le_mono1) simp
  finally show "nat (index b c r) < nat (rows b) * nat (cols b)"
    unfolding n CR .
  show "nat (index b c r) mod nat (cols b) = nat c"
    unfolding n CR using lt by simp
  show "nat (index b c r) div nat (cols b) = nat r"
    unfolding n CR using lt by simp
qed

lemma index_inj:
  assumes "is_inbounds b c r" "is_inbounds b c' r'" "nat (index b c r) = nat (index b c' r')"
  shows "c = c' \<and> r = r'"
proof -
  have "nat c = nat c'"
    using inbounds_index(3)[OF assms(1)] inbounds_index(3)[OF assms(2)] assms(3) by simp
  moreover have "nat r = nat r'"
    using inbounds_index(4)[OF assms(1)] inbounds_index(4)[OF assms(2)] assms(3) by simp
  ultimately show ?thesis using assms(1,2) unfolding is_inbounds_def by linarith
qed

lemma wf_length: "wf b \<Longrightarrow> length (cells b) = nat (rows b) * nat (cols b)"
proof -
  assume "wf b"
  then have "length (map (\<lambda>cell. (col cell, row cell)) (cells b)) = length (positions (cols b) (rows b))"
    unfolding wf_def by (rule arg_cong)
  then show ?thesis by (simp only: length_map length_positions)
qed

lemma wf_norm_index:
  assumes "wf b" "is_inbounds b c r"
  shows "norm_index (cells b) (index b c r) = Some (nat (index b c r))"
proof -
  have "index b c r < int (length (cells b))"
    using inbounds_index(1,2)[OF assms(2)] unfolding wf_length[OF assms(1)] by linarith
  with inbounds_index(1)[OF assms(2)] show ?thesis by (simp add: norm_index_def)
qed

lemma wf_index_less:
  "wf b \<Longrightarrow> is_inbounds b c r \<Longrightarrow> nat (index b c r) < length (cells b)"
  using inbounds_index(2)[of b c r] by (simp add: wf_length)

lemma wf_Board_init: "wf (Board_init cs rws m)"
  unfolding wf_def Board_init_def by (simp add: Cell_init_def o_def split_def)

lemma wf_cell_coords:
  assumes "wf b" "i < length (cells b)"
  shows "is_inbounds b (col (cells b ! i)) (row (cells b ! i))"
    and "nat (index b (col (cells b ! i)) (row (cells b ! i))) = i"
proof -
  have len: "i < nat (rows b) * nat (cols b)" using assms wf_length by simp
  have "map (\<lambda>cell. (col cell, row cell)) (cells b) ! i = positions (cols b) (rows b) ! i"
    using assms(1) unfolding wf_def by simp
  then have "(col (cells b ! i), row (cells b ! i)) = positions (cols b) (rows b) ! i"
    using assms(2) by simp
  then have cr: "col (cells b ! i) = int (i mod nat (cols b))"
      "row (cells b ! i) = int (i div nat (cols b))"
    unfolding nth_positions[OF len] by simp_all
  from len have cs: "0 < nat (cols b)" by (cases "nat (cols b)") auto
  have d: "i div nat (cols b) < nat (rows b)" using len cs by (simp add: less_mult_imp_div_less)
  have m: "i mod nat (cols b) < nat (cols b)" using cs by simp
  show "is_inbounds b (col (cells b ! i)) (row (cells b ! i))"
    unfolding is_inbounds_def cr using d m by linarith
  have cb: "cols b = int (nat (cols b))" using cs by simp
  have "index b (col (cells b ! i)) (row (cells b ! i)) =
        int (i div nat (cols b)) * int (nat (cols b)) + int (i mod nat (cols b))"
    unfolding index_def cr by (subst cb) (rule refl)
  also have "\<dots> = int (i div nat (cols b) * nat (cols b) + i mod nat (cols b))"
    by (simp only: of_nat_add of_nat_mult)
  also have "\<dots> = int i" by simp
  finally show "nat (index b (col (cells b ! i)) (row (cells b ! i))) = i" by simp
qed

subsection \<open>Mine placement\<close>

lemma map_update_same:
  "f y = f (xs ! i) \<Longrightarrow> map f (xs[i := y]) = map f xs"
  by (induction xs arbitrary: i) (auto split: nat.splits)

lemma wf_set_cell [simp]: "wf (set_cell b i f) = wf b"
  by (simp add: wf_def set_cell_def map_update_same)

lemma wf_mines_placed [simp]: "wf (b\<lparr>mines_placed := x\<rparr>) = wf b"
  by (simp add: wf_def)

lemma grid_set_cell [simp]:
  "is_inbounds (set_cell b i f) = is_inbounds b"
  "index (set_cell b i f) = index b"
  "neighbors (set_cell b i f) = neighbors b"
  by (simp_all add: fun_eq_iff is_inbounds_def index_def neighbors_def)

lemma grid_mines_placed [simp]:
  "is_inbounds (b\<lparr>mines_placed := x\<rparr>) = is_inbounds b"
  "index (b\<lparr>mines_placed := x\<rparr>) = index b"
  "neighbors (b\<lparr>mines_placed := x\<rparr>) = neighbors b"
  "cell_at (b\<lparr>mines_placed := x\<rparr>) = cell_at b"
  by (simp_all add: fun_eq_iff is_inbounds_def index_def neighbors_def cell_at_def)

lemma cell_at_set_cell:
  assumes "wf b" "is_inbounds b c r" "is_inbounds b (fst q) (snd q)"
  shows "cell_at (set_cell b (nat (index b c r)) f) q =
         (if q = (c, r) then (cell_at b q)\<lparr>state := f (state (cell_at b q))\<rparr> else cell_at b q)"
proof (cases "q = (c, r)")
  case True
  then show ?thesis
    using wf_index_less[OF assms(1,2)] by (simp add: cell_at_def) (simp add: set_cell_def)
next
  case False
  then have "nat (index b (fst q) (snd q)) \<noteq> nat (index b c r)"
    using index_inj[OF assms(3,2)] by (cases q) auto
  with False show ?thesis by (simp add: cell_at_def) (simp add: set_cell_def)
qed

lemma neighbors_inbounds: "p \<in> set (neighbors b c r) \<Longrightarrow> is_inbounds b (fst p) (snd p)"
  by (auto simp: neighbors_def)

lemma length_neighbors: "length (neighbors b c r) \<le> 8"
proof -
  have "length (neighbors b c r) \<le> length (map (\<lambda>(dc, dr). (c + dc, r + dr)) deltas)"
    unfolding neighbors_def by (rule length_filter_le)
  then show ?thesis by (simp add: deltas_def)
qed

lemma mines_around_le: "mines_around b c r \<le> 8"
  unfolding mines_around_def
  using length_filter_le[of "\<lambda>p. is_mine (state (cell_at b p))" "neighbors b c r"]
    length_neighbors[of b c r] by linarith

lemma mines_around_cong:
  assumes "cols b' = cols b" "rows b' = rows b"
    and "\<And>q. is_inbounds b (fst q) (snd q) \<Longrightarrow>
           is_mine (state (cell_at b' q)) = is_mine (state (cell_at b q))"
  shows "mines_around b' c r = mines_around b c r"
proof -
  have n: "neighbors b' c r = neighbors b c r"
    using assms(1,2) by (simp add: neighbors_def is_inbounds_def)
  have "filter (\<lambda>p. is_mine (state (cell_at b' p))) (neighbors b c r) =
        filter (\<lambda>p. is_mine (state (cell_at b p))) (neighbors b c r)"
    by (rule filter_cong[OF refl]) (simp add: assms(3) neighbors_inbounds)
  then show ?thesis by (simp add: mines_around_def n)
qed

lemma sample_subset: "set (sample ds pool k) \<subseteq> set pool"
proof (induction k arbitrary: ds pool)
  case 0
  then show ?case by simp
next
  case (Suc k)
  show ?case
  proof (cases "pool = []")
    case True
    then show ?thesis by simp
  next
    case False
    define i where "i = (case ds of [] \<Rightarrow> 0 | d # _ \<Rightarrow> d mod length pool)"
    have i: "i < length pool" using False by (auto simp: i_def split: list.splits)
    have rest: "set (take i pool @ drop (Suc i) pool) \<subseteq> set pool"
      using set_take_subset[of i pool] set_drop_subset[of "Suc i" pool] by auto
    have "sample ds pool (Suc k) = pool ! i # sample (tl ds) (take i pool @ drop (Suc i) pool) k"
      using False by (simp add: i_def Let_def)
    then show ?thesis using i rest Suc.IH[of "tl ds" "take i pool @ drop (Suc i) pool"] by auto
  qed
qed

lemma length_sample: "length (sample ds pool k) = min k (length pool)"
proof (induction k arbitrary: ds pool)
  case 0
  then show ?case by simp
next
  case (Suc k)
  show ?case
  proof (cases "pool = []")
    case True
    then show ?thesis by simp
  next
    case False
    define i where "i = (case ds of [] \<Rightarrow> 0 | d # _ \<Rightarrow> d mod length pool)"
    have i: "i < length pool" using False by (auto simp: i_def split: list.splits)
    have "sample ds pool (Suc k) = pool ! i # sample (tl ds) (take i pool @ drop (Suc i) pool) k"
      using False by (simp add: i_def Let_def)
    then show ?thesis using i Suc.IH[of "tl ds" "take i pool @ drop (Suc i) pool"] by auto
  qed
qed

lemma mark_mines_spec:
  assumes "wf b" "\<forall>p \<in> set locs. is_inbounds b (fst p) (snd p)"
  shows "\<exists>b'. mark_mines b locs = Inr b' \<and> wf b' \<and> cols b' = cols b \<and> rows b' = rows b \<and>
           (\<forall>q. is_inbounds b (fst q) (snd q) \<longrightarrow>
                is_mine (state (cell_at b' q)) = (is_mine (state (cell_at b q)) \<or> q \<in> set locs))"
  using assms
proof (induction locs arbitrary: b)
  case Nil
  then show ?case by simp
next
  case (Cons p locs)
  obtain mc mr where p: "p = (mc, mr)" by (cases p)
  from Cons.prems have inb: "is_inbounds b mc mr" by (simp add: p)
  define b1 where "b1 = (set_cell b (nat (index b mc mr)) (\<lambda>s. s\<lparr>is_mine := True\<rparr>))\<lparr>mines_placed := Some True\<rparr>"
  have step: "mark_mines b (p # locs) = mark_mines b1 locs"
    by (simp add: p wf_norm_index[OF Cons.prems(1) inb] b1_def)
  have wf1: "wf b1" using Cons.prems(1) by (simp add: b1_def)
  have grid: "cols b1 = cols b" "rows b1 = rows b" "is_inbounds b1 = is_inbounds b"
    by (simp_all add: b1_def)
  have mine1: "is_mine (state (cell_at b1 q)) = (is_mine (state (cell_at b q)) \<or> q = p)"
    if "is_inbounds b (fst q) (snd q)" for q
    using that by (simp add: b1_def p cell_at_set_cell[OF Cons.prems(1) inb])
  from Cons.prems(2) have "\<forall>p \<in> set locs. is_inbounds b1 (fst p) (snd p)"
    by (simp add: grid)
  from Cons.IH[OF wf1 this] obtain b' where
    b': "mark_mines b1 locs = Inr b'" "wf b'" "cols b' = cols b1" "rows b' = rows b1"
      "\<forall>q. is_inbounds b1 (fst q) (snd q) \<longrightarrow>
           is_mine (state (cell_at b' q)) = (is_mine (state (cell_at b1 q)) \<or> q \<in> set locs)"
    by blast
  show ?case
  proof (intro exI conjI allI impI)
    show "mark_mines b (p # locs) = Inr b'" by (simp only: step b')
    show "wf b'" by (rule b')
    show "cols b' = cols b" by (simp add: b' grid)
    show "rows b' = rows b" by (simp add: b' grid)
    fix q
    assume q: "is_inbounds b (fst q) (snd q)"
    have "is_mine (state (cell_at b' q)) = (is_mine (state (cell_at b1 q)) \<or> q \<in> set locs)"
      using b'(5)[rule_format, of q] q by (simp add: grid)
    then show "is_mine (state (cell_at b' q)) = (is_mine (state (cell_at b q)) \<or> q \<in> set (p # locs))"
      unfolding mine1[OF q] by auto
  qed
qed

lemma count_mines_spec:
  assumes "wf b" "\<forall>p \<in> set ps. is_inbounds b (fst p) (snd p)"
  shows "count_mines b ps acc =
         Inr (acc + int (length (filter (\<lambda>p. is_mine (state (cell_at b p))) ps)))"
  using assms(2)
proof (induction ps arbitrary: acc)
  case Nil
  then show ?case by simp
next
  case (Cons p ps)
  obtain nc nr where p: "p = (nc, nr)" by (cases p)
  from Cons.prems have inb: "is_inbounds b nc nr" by (simp add: p)
  from Cons.prems have rest: "\<forall>p \<in> set ps. is_inbounds b (fst p) (snd p)" by simp
  show ?case
    by (simp add: p wf_norm_index[OF assms(1) inb] Cons.IH[OF rest] cell_at_def)
qed

lemma count_mines_neighbors:
  "wf b \<Longrightarrow> count_mines b (neighbors b c r) 0 = Inr (int (mines_around b c r))"
  by (simp add: count_mines_spec neighbors_inbounds mines_around_def)

lemma compute_adjacent_spec:
  assumes "wf b" "\<forall>p \<in> set ps. is_inbounds b (fst p) (snd p)"
  shows "\<exists>b'. compute_adjacent b ps = Inr b' \<and> wf b' \<and> cols b' = cols b \<and> rows b' = rows b \<and>
           (\<forall>q. is_inbounds b (fst q) (snd q) \<longrightarrow>
                is_mine (state (cell_at b' q)) = is_mine (state (cell_at b q)) \<and>
                adjacent (state (cell_at b' q)) =
                  (if q \<in> set ps \<and> \<not> is_mine (state (cell_at b q))
                   then int (mines_around b (fst q) (snd q))
                   else adjacent (state (cell_at b q))))"
  using assms
proof (induction ps arbitrary: b)
  case Nil
  then show ?case by simp
next
  case (Cons p ps)
  obtain c r where p: "p = (c, r)" by (cases p)
  from Cons.prems have inb: "is_inbounds b c r" by (simp add: p)
  define b1 where "b1 = (if is_mine (state (cell_at b p)) then b
      else set_cell b (nat (index b c r)) (\<lambda>s. s\<lparr>adjacent := int (mines_around b c r)\<rparr>))"
  have step: "compute_adjacent b (p # ps) = compute_adjacent b1 ps"
    by (simp add: p wf_norm_index[OF Cons.prems(1) inb] b1_def cell_at_def
        count_mines_neighbors[OF Cons.prems(1)])
  have wf1: "wf b1" using Cons.prems(1) by (simp add: b1_def)
  have grid: "cols b1 = cols b" "rows b1 = rows b" "is_inbounds b1 = is_inbounds b"
    by (simp_all add: b1_def)
  have mine1: "is_mine (state (cell_at b1 q)) = is_mine (state (cell_at b q))"
    if "is_inbounds b (fst q) (snd q)" for q
    using that by (simp add: b1_def cell_at_set_cell[OF Cons.prems(1) inb])
  have adj1: "adjacent (state (cell_at b1 q)) =
      (if q = p \<and> \<not> is_mine (state (cell_at b q)) then int (mines_around b c r)
       else adjacent (state (cell_at b q)))"
    if "is_inbounds b (fst q) (snd q)" for q
    using that inb by (auto simp: b1_def p cell_at_set_cell[OF Cons.prems(1) inb])
  have around1: "mines_around b1 c' r' = mines_around b c' r'" for c' r'
    by (rule mines_around_cong) (simp_all add: grid mine1)
  from Cons.prems(2) have "\<forall>p \<in> set ps. is_inbounds b1 (fst p) (snd p)"
    by (simp add: grid)
  from Cons.IH[OF wf1 this] obtain b' where
    b': "compute_adjacent b1 ps = Inr b'" "wf b'" "cols b' = cols b1" "rows b' = rows b1"
      "\<forall>q. is_inbounds b1 (fst q) (snd q) \<longrightarrow>
           is_mine (state (cell_at b' q)) = is_mine (state (cell_at b1 q)) \<and>
           adjacent (state (cell_at b' q)) =
             (if q \<in> set ps \<and> \<not> is_mine (state (cell_at b1 q))
              then int (mines_around b1 (fst q) (snd q))
              else adjacent (state (cell_at b1 q)))"
    by blast
  show ?case
  proof (intro exI conjI allI impI)
    show "compute_adjacent b (p # ps) = Inr b'" by (simp only: step b')
    show "wf b'" by (rule b')
    show "cols b' = cols b" by (simp add: b' grid)
    show "rows b' = rows b" by (simp add: b' grid)
  next
    fix q
    assume q: "is_inbounds b (fst q) (snd q)"
    then show "is_mine (state (cell_at b' q)) = is_mine (state (cell_at b q))"
      using b'(5)[rule_format, of q] mine1[OF q] by (simp add: grid)
  next
    fix q
    assume q: "is_inbounds b (fst q) (snd q)"
    have "adjacent (state (cell_at b' q)) =
             (if q \<in> set ps \<and> \<not> is_mine (state (cell_at b1 q))
              then int (mines_around b1 (fst q) (snd q))
              else adjacent (state (cell_at b1 q)))"
      using b'(5)[rule_format, of q] q by (simp add: grid)
    then show "adjacent (state (cell_at b' q)) =
                  (if q \<in> set (p # ps) \<and> \<not> is_mine (state (cell_at b q))
                   then int (mines_around b (fst q) (snd q))
                   else adjacent (state (cell_at b q)))"
      unfolding around1 mine1[OF q] adj1[OF q] by (auto simp: p)
  qed
qed

lemma place_mines_spec:
  assumes "wf b" "place_mines ds b sc sr = Inr b'"
  shows "wf b'" "cols b' = cols b" "rows b' = rows b"
    and "\<And>q. is_inbounds b (fst q) (snd q) \<Longrightarrow> is_mine (state (cell_at b' q)) \<Longrightarrow>
           is_mine (state (cell_at b q)) \<or> q \<notin> set ((sc, sr) # neighbors b sc sr)"
    and "\<And>q. is_inbounds b (fst q) (snd q) \<Longrightarrow> \<not> is_mine (state (cell_at b' q)) \<Longrightarrow>
           adjacent (state (cell_at b' q)) = int (mines_around b' (fst q) (snd q))"
proof -
  define pool where "pool = filter (\<lambda>p. p \<notin> set ((sc, sr) # neighbors b sc sr))
    (positions (cols b) (rows b))"
  define locs where "locs = sample ds pool (nat (min (num_mines b) (int (length pool))))"
  have locs_pool: "set locs \<subseteq> set pool" unfolding locs_def by (rule sample_subset)
  have pool_in: "is_inbounds b (fst p) (snd p)" if "p \<in> set pool" for p
    using that unfolding pool_def by (auto simp: set_positions is_inbounds_def)
  have pool_out: "p \<notin> set ((sc, sr) # neighbors b sc sr)" if "p \<in> set pool" for p
    using that unfolding pool_def by simp
  have "\<forall>p \<in> set locs. is_inbounds b (fst p) (snd p)" using locs_pool pool_in by blast
  from mark_mines_spec[OF assms(1) this] obtain b1 where
    b1: "mark_mines b locs = Inr b1" "wf b1" "cols b1 = cols b" "rows b1 = rows b"
      "\<forall>q. is_inbounds b (fst q) (snd q) \<longrightarrow>
           is_mine (state (cell_at b1 q)) = (is_mine (state (cell_at b q)) \<or> q \<in> set locs)"
    by blast
  have in1: "is_inbounds b1 = is_inbounds b" by (simp add: fun_eq_iff is_inbounds_def b1)
  have all_in: "\<forall>p \<in> set (positions (cols b1) (rows b1)). is_inbounds b1 (fst p) (snd p)"
    by (auto simp: set_positions is_inbounds_def)
  from compute_adjacent_spec[OF b1(2) all_in] obtain b2 where
    b2: "compute_adjacent b1 (positions (cols b1) (rows b1)) = Inr b2" "wf b2"
      "cols b2 = cols b1" "rows b2 = rows b1"
      "\<forall>q. is_inbounds b1 (fst q) (snd q) \<longrightarrow>
           is_mine (state (cell_at b2 q)) = is_mine (state (cell_at b1 q)) \<and>
           adjacent (state (cell_at b2 q)) =
             (if q \<in> set (positions (cols b1) (rows b1)) \<and> \<not> is_mine (state (cell_at b1 q))
              then int (mines_around b1 (fst q) (snd q))
              else adjacent (state (cell_at b1 q)))"
    by blast
  have pm: "place_mines ds b sc sr =
      (if min (num_mines b) (int (length pool)) < 0 then Inl ValueError
       else case mark_mines b locs of Inl e \<Rightarrow> Inl e
            | Inr b1 \<Rightarrow> compute_adjacent b1 (positions (cols b1) (rows b1)))"
    unfolding place_mines_def Let_def pool_def locs_def by (rule refl)
  from assms(2) have "b' = b2"
    unfolding pm by (simp add: b1(1) b2(1) split: if_splits)
  note b2 = b2[folded \<open>b' = b2\<close>]
  show "wf b'" by (rule b2)
  show "cols b' = cols b" by (simp add: b2 b1)
  show "rows b' = rows b" by (simp add: b2 b1)
  have mine2: "is_mine (state (cell_at b' q)) = is_mine (state (cell_at b1 q))"
    if "is_inbounds b (fst q) (snd q)" for q
    using b2(5)[rule_format, of q] that by (simp add: in1)
  have around: "mines_around b' c r = mines_around b1 c r" for c r
    by (rule mines_around_cong) (simp_all add: b2 in1 mine2)
  {
    fix q
    assume q: "is_inbounds b (fst q) (snd q)" and m: "is_mine (state (cell_at b' q))"
    from m have "is_mine (state (cell_at b q)) \<or> q \<in> set locs"
      using b1(5)[rule_format, of q] q by (simp add: mine2)
    then show "is_mine (state (cell_at b q)) \<or> q \<notin> set ((sc, sr) # neighbors b sc sr)"
      using locs_pool pool_out by blast
  }
  {
    fix q
    assume q: "is_inbounds b (fst q) (snd q)" and m: "\<not> is_mine (state (cell_at b' q))"
    have "q \<in> set (positions (cols b1) (rows b1))"
      using q by (cases q) (simp add: set_positions is_inbounds_def b1)
    then show "adjacent (state (cell_at b' q)) = int (mines_around b' (fst q) (snd q))"
      using b2(5)[rule_format, of q] q m by (simp add: in1 mine2 around)
  }
qed

lemma wf_cell_at:
  assumes "wf b" "i < length (cells b)"
  shows "cell_at b (col (cells b ! i), row (cells b ! i)) = cells b ! i"
  by (simp add: cell_at_def wf_cell_coords(2)[OF assms])



text \<open>
  C5. After \<^verbatim>\<open>place_mines\<close> has returned, every cell of the board that is not a mine has
  in \<open>adjacent\<close> the number of mines among the in-bounds neighbours of its own position,
  a number from 0 to 8.
\<close>

theorem adjacent_counts_mines:
  assumes "wf b"
    and "place_mines ds b safe_col safe_row = Inr b'"
    and "cell \<in> set (cells b')"
    and "\<not> is_mine (state cell)"
  shows "adjacent (state cell) = int (mines_around b' (col cell) (row cell)) \<and>
         0 \<le> adjacent (state cell) \<and> adjacent (state cell) \<le> 8"
proof -
  note spec = place_mines_spec[OF assms(1,2)]
  from assms(3) obtain i where i: "i < length (cells b')" "cell = cells b' ! i"
    by (auto simp: in_set_conv_nth)
  have at: "cell_at b' (col cell, row cell) = cell"
    unfolding i(2) by (rule wf_cell_at[OF spec(1) i(1)])
  have "is_inbounds b' (col cell) (row cell)"
    unfolding i(2) by (rule wf_cell_coords(1)[OF spec(1) i(1)])
  then have inb: "is_inbounds b (fst (col cell, row cell)) (snd (col cell, row cell))"
    by (simp add: is_inbounds_def spec(2,3))
  have "adjacent (state (cell_at b' (col cell, row cell))) =
        int (mines_around b' (fst (col cell, row cell)) (snd (col cell, row cell)))"
    by (rule spec(5)[OF inb]) (simp add: at assms(4))
  then have eq: "adjacent (state cell) = int (mines_around b' (col cell) (row cell))"
    by (simp add: at)
  with mines_around_le[of b' "col cell" "row cell"] show ?thesis by simp
qed

subsection \<open>The example boards\<close>

lemma place_mines_example: "place_mines ds (Board_init 3 1 1) 0 0 = Inr example_board"
  by (simp add: eval_defs example_board_def split: list.splits)

lemma toggle_flag_example: "toggle_flag example_board 0 0 = Inr flagged_board"
  by (simp add: eval_defs example_board_def flagged_board_def)

lemma toggle_flag_fresh: "toggle_flag (Board_init 3 1 1) 0 0 = Inr fresh_flagged_board"
  by (simp add: eval_defs fresh_flagged_board_def)

lemma reveal_mine_example: "reveal 1 ds example_board 2 0 = Some (Inr lost_board)"
  by (simp add: eval_defs example_board_def lost_board_def)



theorem adjacent_counts_mines_witness:
  "wf (Board_init 3 1 1) \<and>
   place_mines [] (Board_init 3 1 1) 0 0 = Inr example_board \<and>
   cells example_board ! 1 \<in> set (cells example_board) \<and>
   \<not> is_mine (state (cells example_board ! 1)) \<and>
   adjacent (state (cells example_board ! 1)) = int (mines_around example_board 1 0) \<and>
   mines_around example_board 1 0 = 1"
proof -
  have h1: "wf (Board_init 3 1 1)" by (rule wf_Board_init)
  have h2: "place_mines [] (Board_init 3 1 1) 0 0 = Inr example_board"
    by (rule place_mines_example)
  have h3: "cells example_board ! 1 \<in> set (cells example_board)"
    by (simp add: example_board_def)
  have h4: "\<not> is_mine (state (cells example_board ! 1))"
    by (simp add: example_board_def)
  have c: "col (cells example_board ! 1) = 1" "row (cells example_board ! 1) = 0"
    by (simp_all add: example_board_def)
  have m: "mines_around example_board 1 0 = 1"
    by (simp add: mines_around_def cell_at_def eval_defs example_board_def)
  from adjacent_counts_mines[OF h1 h2 h3 h4, unfolded c] h1 h2 h3 h4 m show ?thesis by simp
qed

subsection \<open>Flags and the outcome of the game\<close>

lemma wf_example_board: "wf example_board"
  by (simp add: wf_def example_board_def positions_def upto.simps)

lemma wf_flagged_board: "wf flagged_board"
  by (simp add: flagged_board_def wf_example_board)

text \<open>
  On a board whose mines have been placed (\<open>mines_placed\<close> is true), \<^verbatim>\<open>reveal\<close> on an
  in-bounds flagged cell returns the board as it was: every cell and every field is
  unchanged.
\<close>

lemma reveal_flagged_noop:
  assumes "wf b"
    and "mines_placed b = Some True"
    and "is_inbounds b c r"
    and "is_flagged (state (cell_at b (c, r)))"
  shows "reveal (Suc n) ds b c r = Some (Inr b)"
  using assms(2,3,4) by (simp add: wf_norm_index[OF assms(1,3)] cell_at_def Let_def)

lemma reveal_flagged_noop_example:
  "wf flagged_board \<and> mines_placed flagged_board = Some True \<and>
   is_inbounds flagged_board 0 0 \<and>
   is_flagged (state (cell_at flagged_board (0, 0))) \<and>
   \<not> is_revealed (state (cell_at flagged_board (0, 0))) \<and>
   reveal 1 [] flagged_board 0 0 = Some (Inr flagged_board)"
proof -
  have h1: "wf flagged_board" by (rule wf_flagged_board)
  have h2: "mines_placed flagged_board = Some True"
    by (simp add: flagged_board_def example_board_def)
  have h3: "is_inbounds flagged_board 0 0"
    by (simp add: flagged_board_def example_board_def is_inbounds_def)
  have h4: "is_flagged (state (cell_at flagged_board (0, 0)))"
    by (simp add: cell_at_def index_def flagged_board_def example_board_def set_cell_def)
  have h5: "\<not> is_revealed (state (cell_at flagged_board (0, 0)))"
    by (simp add: cell_at_def index_def flagged_board_def example_board_def set_cell_def)
  from reveal_flagged_noop[OF h1 h2 h3 h4, of 0 "[]"] h1 h2 h3 h4 h5 show ?thesis by simp
qed

text \<open>
  No call assigns false to \<open>mines_placed\<close>: on a board reached from the constructor the
  attribute is unassigned or true, so there \<^verbatim>\<open>reveal\<close> on a flagged cell either returns
  the board as it was or raises \<^verbatim>\<open>AttributeError\<close> before it writes anything.
\<close>

lemma mark_mines_mines_placed:
  "mark_mines b locs = Inr b' \<Longrightarrow> mines_placed b' = mines_placed b \<or> mines_placed b' = Some True"
proof (induction locs arbitrary: b)
  case Nil
  then show ?case by simp
next
  case (Cons p locs)
  obtain mc mr where p: "p = (mc, mr)" by (cases p)
  from Cons.prems obtain idx where
    step: "mark_mines ((set_cell b idx (\<lambda>s. s\<lparr>is_mine := True\<rparr>))\<lparr>mines_placed := Some True\<rparr>) locs = Inr b'"
    by (auto simp: p split: option.splits)
  from Cons.IH[OF step] show ?case by simp
qed

lemma compute_adjacent_mines_placed:
  "compute_adjacent b ps = Inr b' \<Longrightarrow> mines_placed b' = mines_placed b"
proof (induction ps arbitrary: b)
  case Nil
  then show ?case by simp
next
  case (Cons p ps)
  obtain c r where p: "p = (c, r)" by (cases p)
  from Cons.prems obtain b1 where step: "compute_adjacent b1 ps = Inr b'"
    and b1: "mines_placed b1 = mines_placed b"
    by (auto simp: p split: option.splits if_splits sum.splits)
  from Cons.IH[OF step] b1 show ?case by simp
qed

lemma place_mines_mines_placed:
  "place_mines ds b c r = Inr b' \<Longrightarrow> mines_placed b' = mines_placed b \<or> mines_placed b' = Some True"
  by (auto simp: place_mines_def Let_def split: if_splits sum.splits
      dest!: mark_mines_mines_placed compute_adjacent_mines_placed)

lemma reveal_mines_placed:
  "reveal n ds b c r = Some (Inr b') \<Longrightarrow> mines_placed b \<noteq> Some False \<Longrightarrow>
   mines_placed b' \<noteq> Some False"
proof -
  assume r: "reveal n ds b c r = Some (Inr b')"
  have "mines_placed b \<noteq> Some False \<longrightarrow> mines_placed b' \<noteq> Some False"
  proof (rule reveal_preserves[where R = "\<lambda>b b'. mines_placed b \<noteq> Some False \<longrightarrow>
        mines_placed b' \<noteq> Some False", OF _ _ _ _ _ _ r])
    fix x y :: Board and c r
    assume "place_mines ds x c r = Inr y"
    from place_mines_mines_placed[OF this]
    show "mines_placed x \<noteq> Some False \<longrightarrow> mines_placed y \<noteq> Some False" by auto
  qed (simp_all add: reveal_all_mines_def check_win_def Let_def)
  then show "mines_placed b \<noteq> Some False \<Longrightarrow> mines_placed b' \<noteq> Some False" by simp
qed

lemma run_mines_placed:
  "run n ds b xs = Some (Inr b') \<Longrightarrow> mines_placed b \<noteq> Some False \<Longrightarrow>
   mines_placed b' \<noteq> Some False"
proof (induction xs arbitrary: b)
  case Nil
  then show ?case by simp
next
  case (Cons x xs)
  from Cons.prems obtain b1 where
    first: "do_call n ds b x = Some (Inr b1)" and rest: "run n ds b1 xs = Some (Inr b')"
    by (auto split: option.splits sum.splits)
  have "mines_placed b1 \<noteq> Some False"
  proof (cases x)
    case (Reveal c r)
    with first Cons.prems(2) show ?thesis by (auto dest: reveal_mines_placed)
  next
    case (ToggleFlag c r)
    with first Cons.prems(2) show ?thesis
      by (auto simp: toggle_flag_def split: if_splits option.splits)
  next
    case (PlaceMines c r)
    with first Cons.prems(2) show ?thesis by (auto dest: place_mines_mines_placed)
  next
    case RevealAllMines
    with first Cons.prems(2) show ?thesis by (auto simp: reveal_all_mines_def)
  next
    case CheckWin
    with first Cons.prems(2) show ?thesis by (auto simp: check_win_def Let_def split: if_splits)
  qed
  from Cons.IH[OF rest this] show ?case .
qed

lemma mines_placed_never_False:
  "run n ds (Board_init cs rws m) xs = Some (Inr b') \<Longrightarrow> mines_placed b' \<noteq> Some False"
  by (erule run_mines_placed) (simp add: Board_init_fields)

lemma reveal_flagged_reachable:
  assumes "wf b" "mines_placed b \<noteq> Some False" "is_inbounds b c r"
    and "is_flagged (state (cell_at b (c, r)))"
  shows "reveal (Suc n) ds b c r = Some (Inr b) \<or>
         reveal (Suc n) ds b c r = Some (Inl AttributeError)"
proof (cases "mines_placed b")
  case None
  with assms(3) show ?thesis by simp
next
  case (Some placed)
  with assms(2) have "mines_placed b = Some True" by simp
  from reveal_flagged_noop[OF assms(1) this assms(3,4)] show ?thesis by simp
qed

text \<open>
  C9. On a constructed 3 by 1 board, after \<^verbatim>\<open>toggle_flag(0, 0)\<close> the cell (0, 0) is
  in bounds, flagged and unrevealed, and \<^verbatim>\<open>reveal(0, 0)\<close> does not return the board
  unchanged: it raises \<^verbatim>\<open>AttributeError\<close> at the test of \<^verbatim>\<open>self.mines_placed\<close>, which
  comes before the test of the flag.
\<close>

theorem reveal_flagged_fresh_raises:
  "toggle_flag (Board_init 3 1 1) 0 0 = Inr fresh_flagged_board \<and>
   is_inbounds fresh_flagged_board 0 0 \<and>
   is_flagged (state (cell_at fresh_flagged_board (0, 0))) \<and>
   \<not> is_revealed (state (cell_at fresh_flagged_board (0, 0))) \<and>
   reveal (Suc n) ds fresh_flagged_board 0 0 = Some (Inl AttributeError)"
  by (simp add: eval_defs fresh_flagged_board_def cell_at_def)

lemma mark_mines_frame:
  "mark_mines b locs = Inr b' \<Longrightarrow>
   game_over b' = game_over b \<and> win b' = win b \<and> revealed_count b' = revealed_count b"
proof (induction locs arbitrary: b)
  case Nil
  then show ?case by simp
next
  case (Cons p locs)
  obtain mc mr where p: "p = (mc, mr)" by (cases p)
  from Cons.prems obtain idx where
    step: "mark_mines ((set_cell b idx (\<lambda>s. s\<lparr>is_mine := True\<rparr>))\<lparr>mines_placed := Some True\<rparr>) locs = Inr b'"
    by (auto simp: p split: option.splits)
  from Cons.IH[OF step] show ?case by simp
qed

lemma compute_adjacent_frame:
  "compute_adjacent b ps = Inr b' \<Longrightarrow>
   game_over b' = game_over b \<and> win b' = win b \<and> revealed_count b' = revealed_count b"
proof (induction ps arbitrary: b)
  case Nil
  then show ?case by simp
next
  case (Cons p ps)
  obtain c r where p: "p = (c, r)" by (cases p)
  from Cons.prems obtain b1 where step: "compute_adjacent b1 ps = Inr b'"
    and b1: "game_over b1 = game_over b \<and> win b1 = win b \<and> revealed_count b1 = revealed_count b"
    by (auto simp: p split: option.splits if_splits sum.splits)
  from Cons.IH[OF step] b1 show ?case by simp
qed

lemma place_mines_frame:
  "place_mines ds b c r = Inr b' \<Longrightarrow>
   game_over b' = game_over b \<and> win b' = win b \<and> revealed_count b' = revealed_count b"
  by (auto simp: place_mines_def Let_def split: if_splits sum.splits
      dest!: mark_mines_frame compute_adjacent_frame)

lemma toggle_flag_frame:
  "toggle_flag b c r = Inr b' \<Longrightarrow>
   game_over b' = game_over b \<and> win b' = win b \<and> revealed_count b' = revealed_count b"
  by (auto simp: toggle_flag_def split: if_splits option.splits)

lemma outcome_kept_refl: "outcome_kept b b"
  by (simp add: outcome_kept_def)

lemma outcome_kept_trans: "outcome_kept a b \<Longrightarrow> outcome_kept b c \<Longrightarrow> outcome_kept a c"
  unfolding outcome_kept_def by blast

lemma outcome_kept_same:
  "game_over b' = game_over b \<and> win b' = win b \<Longrightarrow> outcome_kept b b'"
  by (simp add: outcome_kept_def)

lemma outcome_kept_lose: "outcome_kept b (reveal_all_mines (b\<lparr>game_over := True\<rparr>))"
  by (simp add: outcome_kept_def reveal_all_mines_def)

lemma outcome_kept_check_win: "outcome_kept b (check_win b)"
  by (simp add: outcome_kept_def check_win_def Let_def)

lemma reveal_outcome_kept:
  "reveal n ds b c r = Some (Inr b') \<Longrightarrow> outcome_kept b b'"
proof (rule reveal_preserves[where R = outcome_kept])
  fix x y :: Board and c r
  assume "place_mines ds x c r = Inr y"
  then show "outcome_kept x y" by (intro outcome_kept_same) (simp add: place_mines_frame)
next
  fix x :: Board and i
  show "outcome_kept x (set_cell x i (\<lambda>s. s\<lparr>is_revealed := True\<rparr>))"
    by (rule outcome_kept_same) simp
qed (auto intro: outcome_kept_refl outcome_kept_lose outcome_kept_check_win elim: outcome_kept_trans)

lemma do_call_outcome_kept:
  "do_call n ds b x = Some (Inr b') \<Longrightarrow> outcome_kept b b'"
proof (cases x)
  case (Reveal c r)
  assume "do_call n ds b x = Some (Inr b')"
  then show ?thesis using Reveal by (simp add: reveal_outcome_kept)
next
  case (ToggleFlag c r)
  assume "do_call n ds b x = Some (Inr b')"
  then show ?thesis using ToggleFlag by (intro outcome_kept_same) (simp add: toggle_flag_frame)
next
  case (PlaceMines c r)
  assume "do_call n ds b x = Some (Inr b')"
  then show ?thesis using PlaceMines by (intro outcome_kept_same) (simp add: place_mines_frame)
next
  case RevealAllMines
  assume "do_call n ds b x = Some (Inr b')"
  then show ?thesis using RevealAllMines
    by (intro outcome_kept_same) (auto simp: reveal_all_mines_def)
next
  case CheckWin
  assume "do_call n ds b x = Some (Inr b')"
  then show ?thesis using CheckWin by (auto simp: outcome_kept_check_win)
qed

lemma run_outcome_kept:
  "run n ds b xs = Some (Inr b') \<Longrightarrow> outcome_kept b b'"
proof (induction xs arbitrary: b)
  case Nil
  then show ?case by (simp add: outcome_kept_refl)
next
  case (Cons x xs)
  from Cons.prems obtain b1 where
    first: "do_call n ds b x = Some (Inr b1)" and rest: "run n ds b1 xs = Some (Inr b')"
    by (auto split: option.splits sum.splits)
  from do_call_outcome_kept[OF first] Cons.IH[OF rest] show ?case by (rule outcome_kept_trans)
qed

text \<open>
  C7, as amended. Along every sequence of calls that return, \<open>game_over\<close> and \<open>win\<close>
  never go back from true to false (so each goes from false to true at most once),
  and \<open>win\<close> does not become true once \<open>game_over\<close> is true. Applied to the board
  reached after any prefix of a run, this relates any two moments of the run.
\<close>

theorem outcome_monotone:
  assumes "run n ds b xs = Some (Inr b')"
  shows "(game_over b \<longrightarrow> game_over b') \<and> (win b \<longrightarrow> win b') \<and>
         (game_over b \<and> \<not> win b \<longrightarrow> \<not> win b')"
  using run_outcome_kept[OF assms] unfolding outcome_kept_def by blast

theorem outcome_monotone_witness:
  "run 2 [] lost_board [Reveal 0 0, ToggleFlag 2 0, CheckWin] =
     Some (Inr (set_cell (set_cell lost_board 0 (\<lambda>s. s\<lparr>is_revealed := True\<rparr>)) 1
                  (\<lambda>s. s\<lparr>is_revealed := True\<rparr>))) \<and>
   game_over lost_board \<and> \<not> win lost_board \<and>
   game_over (set_cell (set_cell lost_board 0 (\<lambda>s. s\<lparr>is_revealed := True\<rparr>)) 1
                  (\<lambda>s. s\<lparr>is_revealed := True\<rparr>)) \<and>
   \<not> win (set_cell (set_cell lost_board 0 (\<lambda>s. s\<lparr>is_revealed := True\<rparr>)) 1
                  (\<lambda>s. s\<lparr>is_revealed := True\<rparr>))"
proof -
  have h: "run 2 [] lost_board [Reveal 0 0, ToggleFlag 2 0, CheckWin] =
     Some (Inr (set_cell (set_cell lost_board 0 (\<lambda>s. s\<lparr>is_revealed := True\<rparr>)) 1
                  (\<lambda>s. s\<lparr>is_revealed := True\<rparr>)))"
    by (simp add: eval_defs lost_board_def example_board_def numeral_2_eq_2)
  have g: "game_over lost_board" "\<not> win lost_board"
    by (simp_all add: lost_board_def example_board_def set_cell_def)
  from outcome_monotone[OF h] h g show ?thesis by simp
qed

text \<open>
  The two can both be true: on a 3 by 1 board with \<open>num_mines = 3\<close>, \<^verbatim>\<open>place_mines(0, 0)\<close>
  places one mine at (2, 0), \<^verbatim>\<open>reveal(0, 0)\<close> sets \<open>win\<close>, and \<^verbatim>\<open>reveal(2, 0)\<close> then reveals
  the mine and sets \<open>game_over\<close>: no call tests \<open>win\<close> or \<open>game_over\<close> before it
  reveals a cell. Each pair is \<open>(game_over, win)\<close>.
\<close>

theorem win_then_game_over:
  "map_option (map_sum id (\<lambda>b. (game_over b, win b)))
     (run 2 [] (Board_init 3 1 3) [PlaceMines 0 0, Reveal 0 0]) = Some (Inr (False, True)) \<and>
   map_option (map_sum id (\<lambda>b. (game_over b, win b)))
     (run 2 [] (Board_init 3 1 3) [PlaceMines 0 0, Reveal 0 0, Reveal 2 0]) = Some (Inr (True, True))"
  by (simp add: eval_defs numeral_2_eq_2)

text \<open>No call changes \<open>revealed_count\<close>.\<close>

lemma reveal_revealed_count:
  "reveal n ds b c r = Some (Inr b') \<Longrightarrow> revealed_count b' = revealed_count b"
proof (rule reveal_preserves[where R = "\<lambda>b b'. revealed_count b' = revealed_count b"])
  fix x :: Board
  show "revealed_count (reveal_all_mines (x\<lparr>game_over := True\<rparr>)) = revealed_count x"
    by (simp add: reveal_all_mines_def)
next
  fix x :: Board
  show "revealed_count (check_win x) = revealed_count x"
    by (simp add: check_win_def Let_def)
qed (simp_all add: place_mines_frame)

lemma run_revealed_count:
  "run n ds b xs = Some (Inr b') \<Longrightarrow> revealed_count b' = revealed_count b"
proof (induction xs arbitrary: b)
  case Nil
  then show ?case by simp
next
  case (Cons x xs)
  from Cons.prems obtain b1 where
    first: "do_call n ds b x = Some (Inr b1)" and rest: "run n ds b1 xs = Some (Inr b')"
    by (auto split: option.splits sum.splits)
  have "revealed_count b1 = revealed_count b"
    using first
    by (cases x)
      (auto simp: reveal_revealed_count place_mines_frame toggle_flag_frame
        reveal_all_mines_def check_win_def Let_def)
  with Cons.IH[OF rest] show ?case by simp
qed

subsection \<open>The layout is an invariant\<close>

text \<open>On a board with the constructor's layout and a mine count that is not negative,
  \<^verbatim>\<open>place_mines\<close> returns; and every call keeps the layout.\<close>

lemma place_mines_returns:
  assumes "wf b" "0 \<le> num_mines b"
  shows "\<exists>b'. place_mines ds b sc sr = Inr b'"
proof -
  define pool where "pool = filter (\<lambda>p. p \<notin> set ((sc, sr) # neighbors b sc sr))
    (positions (cols b) (rows b))"
  define locs where "locs = sample ds pool (nat (min (num_mines b) (int (length pool))))"
  have pm: "place_mines ds b sc sr =
      (if min (num_mines b) (int (length pool)) < 0 then Inl ValueError
       else case mark_mines b locs of Inl e \<Rightarrow> Inl e
            | Inr b1 \<Rightarrow> compute_adjacent b1 (positions (cols b1) (rows b1)))"
    unfolding place_mines_def Let_def pool_def locs_def by (rule refl)
  have "set locs \<subseteq> set pool" unfolding locs_def by (rule sample_subset)
  then have "\<forall>p \<in> set locs. is_inbounds b (fst p) (snd p)"
    unfolding pool_def by (auto simp: set_positions is_inbounds_def)
  from mark_mines_spec[OF assms(1) this] obtain b1 where
    b1: "mark_mines b locs = Inr b1" "wf b1" by blast
  have "\<forall>p \<in> set (positions (cols b1) (rows b1)). is_inbounds b1 (fst p) (snd p)"
    by (auto simp: set_positions is_inbounds_def)
  from compute_adjacent_spec[OF b1(2) this] obtain b2 where
    "compute_adjacent b1 (positions (cols b1) (rows b1)) = Inr b2" by blast
  with b1(1) assms(2) show ?thesis unfolding pm by simp
qed

lemma wf_reveal_all_mines [simp]: "wf (reveal_all_mines b) = wf b"
  by (simp add: wf_def reveal_all_mines_def o_def if_distrib cong: if_cong)

lemma wf_game_over [simp]: "wf (b\<lparr>game_over := g\<rparr>) = wf b"
  by (simp add: wf_def)

lemma wf_check_win: "wf b \<Longrightarrow> wf (check_win b)"
  by (simp add: wf_def check_win_def Let_def o_def if_distrib cong: if_cong)

lemma wf_toggle_flag: "toggle_flag b c r = Inr b' \<Longrightarrow> wf b \<Longrightarrow> wf b'"
  by (auto simp: toggle_flag_def split: if_splits option.splits)

lemma wf_reveal: "reveal n ds b c r = Some (Inr b') \<Longrightarrow> wf b \<Longrightarrow> wf b'"
proof -
  assume r: "reveal n ds b c r = Some (Inr b')"
  have "wf b \<longrightarrow> wf b'"
  proof (rule reveal_preserves[where R = "\<lambda>b b'. wf b \<longrightarrow> wf b'", OF _ _ _ _ _ _ r])
    fix x y :: Board and c r
    assume "place_mines ds x c r = Inr y"
    then show "wf x \<longrightarrow> wf y" using place_mines_spec(1) by blast
  next
    fix x :: Board
    show "wf x \<longrightarrow> wf (reveal_all_mines (x\<lparr>game_over := True\<rparr>))"
      by simp
  qed (simp_all add: wf_check_win)
  then show "wf b \<Longrightarrow> wf b'" by simp
qed

lemma wf_run: "run n ds b xs = Some (Inr b') \<Longrightarrow> wf b \<Longrightarrow> wf b'"
proof (induction xs arbitrary: b)
  case Nil
  then show ?case by simp
next
  case (Cons x xs)
  from Cons.prems obtain b1 where
    first: "do_call n ds b x = Some (Inr b1)" and rest: "run n ds b1 xs = Some (Inr b')"
    by (auto split: option.splits sum.splits)
  have "wf b1"
    using first Cons.prems(2)
    by (cases x) (auto simp: wf_check_win dest: wf_reveal wf_toggle_flag place_mines_spec(1))
  with Cons.IH[OF rest] show ?case by simp
qed

lemma no_mines_Board_init: "\<forall>cell \<in> set (cells (Board_init cs rws m)). \<not> is_mine (state cell)"
  by (auto simp: Board_init_def Cell_init_def CellState_init_def)

end
